theory Spec2Isabelle
  imports Complex_Main "HOL-Library.AList"
begin

section \<open>The threat-scoring and lateral-movement engine of \<^verbatim>\<open>ml_pipeline.py\<close>\<close>

text \<open>
  The development embeds \<^verbatim>\<open>GraphAnalyzer\<close> and \<^verbatim>\<open>MLPipeline._calculate_threat_score\<close> of
  \<^verbatim>\<open>backend/app/services/ml_pipeline.py\<close> and the cache protocol of the
  \<^verbatim>\<open>/attack-paths\<close> endpoint of \<^verbatim>\<open>backend/app/api/v1/endpoints/visualize.py\<close>.

  Python floats are modelled by \<^typ>\<open>real\<close>: rounding, infinities and NaN are left out, so
  every statement about a score is a statement about the exact value of the formula the
  code evaluates.
\<close>

subsection \<open>The graph: \<^verbatim>\<open>networkx.Graph\<close> as the code uses it\<close>

text \<open>
  \<^verbatim>\<open>nx.Graph\<close> keeps \<^verbatim>\<open>_adj\<close>, an insertion-ordered dictionary from a node to the
  insertion-ordered dictionary of its neighbours, each neighbour mapped to the attribute
  dictionary of the edge. (\<^verbatim>\<open>_node\<close> has the same keys in the same order and empty
  attribute dictionaries here, so it is not kept separately.) The attribute dictionary of
  an edge always has the two keys \<^verbatim>\<open>weight\<close> and \<^verbatim>\<open>types\<close> that \<^verbatim>\<open>add_connection\<close> writes.
  The one dictionary object is stored under \<^verbatim>\<open>_adj[u][v]\<close> and under \<^verbatim>\<open>_adj[v][u]\<close>; the
  model stores its value at both places and every write goes to both.
\<close>

type_synonym node = string

record edge_attr =
  weight :: real
  types :: "string set"

type_synonym nx_graph = "(node \<times> (node \<times> edge_attr) list) list"

definition nodes :: "nx_graph \<Rightarrow> node list" where
  "nodes g = map fst g"

definition has_node :: "nx_graph \<Rightarrow> node \<Rightarrow> bool" where
  "has_node g n = (map_of g n \<noteq> None)"

text \<open>\<^verbatim>\<open>G[u][v]\<close>: the attribute dictionary of the edge, \<open>None\<close> where Python raises KeyError.\<close>

definition edge_data :: "nx_graph \<Rightarrow> node \<Rightarrow> node \<Rightarrow> edge_attr option" where
  "edge_data g u v = (case map_of g u of None \<Rightarrow> None | Some nb \<Rightarrow> map_of nb v)"

definition has_edge :: "nx_graph \<Rightarrow> node \<Rightarrow> node \<Rightarrow> bool" where
  "has_edge g u v = (edge_data g u v \<noteq> None)"

text \<open>\<^verbatim>\<open>G.neighbors(u)\<close>, as the sequence of the keys of \<^verbatim>\<open>_adj[u]\<close>; empty for an unknown node.\<close>

definition neighbors :: "nx_graph \<Rightarrow> node \<Rightarrow> node list" where
  "neighbors g u = (case map_of g u of None \<Rightarrow> [] | Some nb \<Rightarrow> map fst nb)"

text \<open>The first half of \<^verbatim>\<open>add_edge\<close>: a node that is new gets an empty neighbour dictionary.\<close>

definition add_node :: "nx_graph \<Rightarrow> node \<Rightarrow> nx_graph" where
  "add_node g u = (if has_node g u then g else g @ [(u, [])])"

text \<open>\<^verbatim>\<open>_adj[u][v] = a\<close> for a node \<open>u\<close> of the graph.\<close>

definition set_adj :: "nx_graph \<Rightarrow> node \<Rightarrow> node \<Rightarrow> edge_attr \<Rightarrow> nx_graph" where
  "set_adj g u v a =
     (case map_of g u of None \<Rightarrow> g | Some nb \<Rightarrow> AList.update u (AList.update v a nb) g)"

text \<open>
  \<^verbatim>\<open>G.add_edge(u, v, weight=w, types={t})\<close>: both nodes are added if new, \<open>u\<close> first, and
  the attribute dictionary, with both keys overwritten, is stored in both directions.
\<close>

definition add_edge :: "nx_graph \<Rightarrow> node \<Rightarrow> node \<Rightarrow> edge_attr \<Rightarrow> nx_graph" where
  "add_edge g u v a = set_adj (set_adj (add_node (add_node g u) v) u v a) v u a"

text \<open>
  An in-place update of the dictionary \<^verbatim>\<open>G[u][v]\<close>; the object is shared by both
  directions, so both entries get the new value.
\<close>

definition update_edge :: "nx_graph \<Rightarrow> node \<Rightarrow> node \<Rightarrow> (edge_attr \<Rightarrow> edge_attr) \<Rightarrow> nx_graph" where
  "update_edge g u v f =
     (case edge_data g u v of None \<Rightarrow> g | Some a \<Rightarrow> set_adj (set_adj g u v (f a)) v u (f a))"

text \<open>
  The graphs that \<^verbatim>\<open>nx.Graph\<close> can hold: keys are unique, and an edge stored at \<open>u\<close> for
  \<open>v\<close> is stored at \<open>v\<close> for \<open>u\<close> with the same attributes.
\<close>

definition wf_graph :: "nx_graph \<Rightarrow> bool" where
  "wf_graph g =
     (distinct (map fst g) \<and>
      (\<forall>(u, nb) \<in> set g. distinct (map fst nb) \<and>
         (\<forall>(v, a) \<in> set nb. edge_data g v u = Some a)))"

subsection \<open>\<^verbatim>\<open>GraphAnalyzer\<close>\<close>

record graph_analyzer =
  graph :: nx_graph
  is_initialized :: bool

text \<open>\<^verbatim>\<open>GraphAnalyzer.__init__\<close> and \<^verbatim>\<open>GraphAnalyzer.initialize\<close>.\<close>

definition init_analyzer :: graph_analyzer where
  "init_analyzer = \<lparr>graph = [], is_initialized = False\<rparr>"

definition initialize :: "graph_analyzer \<Rightarrow> graph_analyzer" where
  "initialize ga = ga\<lparr>is_initialized := True\<rparr>"

text \<open>
  \<^verbatim>\<open>add_connection\<close> returns nothing and raises nothing: the result is the analyzer after
  the call. The body has no check on the two identifiers.
\<close>

definition add_connection ::
  "graph_analyzer \<Rightarrow> node \<Rightarrow> node \<Rightarrow> string \<Rightarrow> real \<Rightarrow> graph_analyzer" where
  "add_connection ga source target connection_type w =
     (if \<not> is_initialized ga then ga
      else if has_edge (graph ga) source target
      then ga\<lparr>graph := update_edge (graph ga) source target
                 (\<lambda>a. a\<lparr>weight := weight a + w, types := insert connection_type (types a)\<rparr>)\<rparr>
      else ga\<lparr>graph := add_edge (graph ga) source target
                 \<lparr>weight = w, types = {connection_type}\<rparr>\<rparr>)"

subsection \<open>\<^verbatim>\<open>MLPipeline._calculate_threat_score\<close>\<close>

text \<open>
  The dictionaries of \<^verbatim>\<open>analyze_event\<close>: a key that may be missing is an option. The entry
  \<^verbatim>\<open>graph_analysis\<close> is the dictionary that \<^verbatim>\<open>detect_lateral_movement\<close> returns, which always
  has \<^verbatim>\<open>risk_score\<close>, \<^verbatim>\<open>path\<close> and \<^verbatim>\<open>is_suspicious\<close> and, when a path was found, \<^verbatim>\<open>path_length\<close>
  and \<^verbatim>\<open>total_weight\<close>.
\<close>

record anomaly_result =
  anomaly_score :: "real option"

record classification_result =
  classification :: "string option"
  confidence :: "real option"

record lm_result =
  risk_score :: real
  path :: "node list"
  path_length :: "int option"
  is_suspicious :: bool
  total_weight :: "real option"

record analysis_results =
  anomaly_detection :: "anomaly_result option"
  threat_classification :: "classification_result option"
  graph_analysis :: "lm_result option"

text \<open>\<^verbatim>\<open>d.get(key, default)\<close>.\<close>

definition get_or :: "'a option \<Rightarrow> 'a \<Rightarrow> 'a" where
  "get_or x d = (case x of None \<Rightarrow> d | Some y \<Rightarrow> y)"

definition calculate_threat_score :: "analysis_results \<Rightarrow> real" where
  "calculate_threat_score results =
     (let score = 0;
          score = (case anomaly_detection results of
                     None \<Rightarrow> score
                   | Some ad \<Rightarrow> score + get_or (anomaly_score ad) 0 * 0.3);
          score = (case threat_classification results of
                     None \<Rightarrow> score
                   | Some tc \<Rightarrow>
                       (let cls = get_or (classification tc) ''benign'';
                            conf = get_or (confidence tc) 0
                        in if cls = ''malicious'' then score + conf * 0.4
                           else if cls = ''suspicious'' then score + conf * 0.5 * 0.4
                           else score));
          score = (case graph_analysis results of
                     None \<Rightarrow> score
                   | Some ga \<Rightarrow> score + risk_score ga * 0.3)
      in min 1 score)"

text \<open>
  The three signals of one event as \<^verbatim>\<open>analyze_event\<close> passes them on: every entry present,
  the graph entry with the given risk score.
\<close>

definition fusion_inputs :: "real \<Rightarrow> string \<Rightarrow> real \<Rightarrow> real \<Rightarrow> analysis_results" where
  "fusion_inputs a cls conf g =
     \<lparr>anomaly_detection = Some \<lparr>anomaly_score = Some a\<rparr>,
      threat_classification = Some \<lparr>classification = Some cls, confidence = Some conf\<rparr>,
      graph_analysis = Some \<lparr>risk_score = g, path = [], path_length = None,
                              is_suspicious = False, total_weight = None\<rparr>\<rparr>"

subsection \<open>Reachability and shortest paths: the \<^verbatim>\<open>networkx\<close> calls\<close>

text \<open>
  \<^verbatim>\<open>networkx\<close> is a dependency of the repository (\<^verbatim>\<open>networkx>=3.2.0\<close> in \<^verbatim>\<open>setup.py\<close>), not
  part of it. Two of its functions decide what \<^verbatim>\<open>detect_lateral_movement\<close> returns.

  \<^verbatim>\<open>nx.has_path(G, s, t)\<close> only yields a truth value, which its documentation fixes: whether
  a path from \<open>s\<close> to \<open>t\<close> exists. It is modelled by a search that computes just that: a
  work list of nodes still to expand and the list of nodes already reached.
\<close>

function reach :: "nx_graph \<Rightarrow> node list \<Rightarrow> node list \<Rightarrow> node list" where
  "reach g [] visited = visited"
| "reach g (v # work) visited =
     (if v \<in> set visited \<or> \<not> has_node g v then reach g work visited
      else reach g (neighbors g v @ work) (v # visited))"
  by pat_completeness auto
termination
proof (relation "measures [\<lambda>(g, work, visited). card (set (nodes g) - set visited),
                           \<lambda>(g, work, visited). length work]")
  fix g :: nx_graph and v work visited
  assume "\<not> (v \<in> set visited \<or> \<not> has_node g v)"
  then have v: "v \<in> set (nodes g) - set visited"
    by (simp add: has_node_def nodes_def map_of_eq_None_iff)
  have eq: "set (nodes g) - set (v # visited) = (set (nodes g) - set visited) - {v}"
    by auto
  have "card ((set (nodes g) - set visited) - {v}) < card (set (nodes g) - set visited)"
    using v by (intro card_Diff1_less) simp_all
  then have "card (set (nodes g) - set (v # visited)) < card (set (nodes g) - set visited)"
    by (simp only: eq)
  then show "((g, neighbors g v @ work, v # visited), (g, v # work, visited))
         \<in> measures [\<lambda>(g, work, visited). card (set (nodes g) - set visited),
                      \<lambda>(g, work, visited). length work]"
    by simp
qed simp_all

definition has_path :: "nx_graph \<Rightarrow> node \<Rightarrow> node \<Rightarrow> bool" where
  "has_path g source target = (target \<in> set (reach g [source] []))"

text \<open>
  \<^verbatim>\<open>nx.shortest_path(G, s, t, weight='weight')\<close> calls \<^verbatim>\<open>nx.bidirectional_dijkstra\<close> and
  keeps the path. Which of several paths comes back, and whether the call raises, depends
  on the algorithm, so the algorithm itself is embedded: two Dijkstra searches, one from
  each end, that take turns.

  The Python keeps two-element lists indexed by the direction \<^verbatim>\<open>dir\<close>; here they are
  functions of a truth value, \<open>False\<close> for index 0 (forward) and \<open>True\<close> for index 1
  (backward). \<^verbatim>\<open>fringe[dir]\<close> is a \<^verbatim>\<open>heapq\<close> heap of tuples \<^verbatim>\<open>(distance, count, node)\<close>;
  only \<^verbatim>\<open>heappush\<close> and \<^verbatim>\<open>heappop\<close> touch it and the counts are all different, so the
  entries alone fix what \<^verbatim>\<open>heappop\<close> returns: the entry least in distance and, among
  those, least in count. \<^verbatim>\<open>counter\<close> is the next value of the iterator \<^verbatim>\<open>c = count()\<close>.
  \<^verbatim>\<open>finaldist\<close> is unbound until the first assignment: \<open>None\<close>.
\<close>

datatype nx_error = NetworkXNoPath | NodeNotFound | ValueError | KeyError | UnboundLocalError

record bd_state =
  dists :: "bool \<Rightarrow> node \<rightharpoonup> real"
  paths :: "bool \<Rightarrow> node \<rightharpoonup> node list"
  fringe :: "bool \<Rightarrow> (real \<times> nat \<times> node) list"
  seen :: "bool \<Rightarrow> node \<rightharpoonup> real"
  counter :: nat
  finaldist :: "real option"
  finalpath :: "node list"
  dir :: bool

text \<open>The order of the heap entries: by distance, then by count.\<close>

definition heap_le :: "real \<times> nat \<times> node \<Rightarrow> real \<times> nat \<times> node \<Rightarrow> bool" where
  "heap_le a b = (fst a < fst b \<or> (fst a = fst b \<and> fst (snd a) \<le> fst (snd b)))"

text \<open>\<^verbatim>\<open>heappop\<close> is only called on a heap that the loop condition has found non-empty.\<close>

fun heap_min :: "(real \<times> nat \<times> node) list \<Rightarrow> real \<times> nat \<times> node" where
  "heap_min [] = (0, 0, [])"
| "heap_min [x] = x"
| "heap_min (x # y # ys) = (let m = heap_min (y # ys) in if heap_le x m then x else m)"

text \<open>
  The body of \<^verbatim>\<open>for w, d in neighs[dir][v].items()\<close> once a relaxation is due:
  \<^verbatim>\<open>seen[dir][w] = vwLength\<close>, the push, \<^verbatim>\<open>paths[dir][w] = paths[dir][v] + [w]\<close>, and the
  update of the best path found so far when \<open>w\<close> has been seen from both ends. The new
  best path is \<^verbatim>\<open>paths[0][w] + revpath[1:]\<close>, with \<^verbatim>\<open>revpath\<close> the reverse of
  \<^verbatim>\<open>paths[1][w]\<close>.
\<close>

definition set_final :: "node \<Rightarrow> real \<Rightarrow> bd_state \<Rightarrow> nx_error + bd_state" where
  "set_final w totaldist st =
     (case (paths st False w, paths st True w) of
        (Some p0, Some p1) \<Rightarrow>
          Inr (st\<lparr>finaldist := Some totaldist, finalpath := p0 @ tl (rev p1)\<rparr>)
      | _ \<Rightarrow> Inl KeyError)"

text \<open>
  \<^verbatim>\<open>if w in seen[0] and w in seen[1]\<close>: the node has been seen from both ends; the path
  through it replaces the best one if there is none yet or if it is shorter.
\<close>

definition check_meeting :: "node \<Rightarrow> bd_state \<Rightarrow> nx_error + bd_state" where
  "check_meeting w st =
     (case (seen st False w, seen st True w) of
        (Some s0, Some s1) \<Rightarrow>
          (let totaldist = s0 + s1
           in if finalpath st = [] then set_final w totaldist st
              else (case finaldist st of
                      None \<Rightarrow> Inl UnboundLocalError
                    | Some fd \<Rightarrow>
                        if totaldist < fd then set_final w totaldist st else Inr st))
      | _ \<Rightarrow> Inr st)"

definition relax_update :: "bool \<Rightarrow> node \<Rightarrow> node \<Rightarrow> real \<Rightarrow> bd_state \<Rightarrow> nx_error + bd_state" where
  "relax_update d v w vwLength st =
     (case paths st d v of
        None \<Rightarrow> Inl KeyError
      | Some pv \<Rightarrow>
          check_meeting w
            (st\<lparr>seen := (seen st)(d := (seen st d)(w \<mapsto> vwLength)),
                fringe := (fringe st)(d := fringe st d @ [(vwLength, counter st, w)]),
                counter := counter st + 1,
                paths := (paths st)(d := (paths st d)(w \<mapsto> pv @ [w]))\<rparr>))"

text \<open>One neighbour \<open>w\<close> of the node \<open>v\<close> being expanded, with the attributes of the edge.\<close>

definition relax :: "bool \<Rightarrow> node \<Rightarrow> bd_state \<Rightarrow> node \<times> edge_attr \<Rightarrow> nx_error + bd_state" where
  "relax d v st e =
     (case dists st d v of
        None \<Rightarrow> Inl KeyError
      | Some dv \<Rightarrow>
          (let w = fst e; cost = weight (snd e); vwLength = dv + cost
           in case dists st d w of
                Some dw \<Rightarrow> if vwLength < dw then Inl ValueError else Inr st
              | None \<Rightarrow>
                  (case seen st d w of
                     None \<Rightarrow> relax_update d v w vwLength st
                   | Some sw \<Rightarrow>
                       if vwLength < sw then relax_update d v w vwLength st else Inr st)))"

fun relax_all ::
  "bool \<Rightarrow> node \<Rightarrow> (node \<times> edge_attr) list \<Rightarrow> bd_state \<Rightarrow> nx_error + bd_state" where
  "relax_all d v [] st = Inr st"
| "relax_all d v (e # es) st =
     (case relax d v st e of Inl err \<Rightarrow> Inl err | Inr st' \<Rightarrow> relax_all d v es st')"

text \<open>
  One round of \<^verbatim>\<open>while fringe[0] and fringe[1]\<close>: it ends the search, with the result or
  the exception, or hands the next state on.
\<close>

datatype bd_outcome = Done "nx_error + real \<times> node list" | Next bd_state

definition bd_step :: "nx_graph \<Rightarrow> bd_state \<Rightarrow> bd_outcome" where
  "bd_step g st =
     (if fringe st False = [] \<or> fringe st True = [] then Done (Inl NetworkXNoPath)
      else
        (let d = (\<not> dir st);
             popped = heap_min (fringe st d);
             dist = fst popped;
             v = snd (snd popped);
             st1 = st\<lparr>dir := d, fringe := (fringe st)(d := remove1 popped (fringe st d))\<rparr>
         in if dists st1 d v \<noteq> None then Next st1
            else
              (let st2 = st1\<lparr>dists := (dists st1)(d := (dists st1 d)(v \<mapsto> dist))\<rparr>
               in if dists st2 (\<not> d) v \<noteq> None
                  then (case finaldist st2 of
                          None \<Rightarrow> Done (Inl UnboundLocalError)
                        | Some fd \<Rightarrow> Done (Inr (fd, finalpath st2)))
                  else (case map_of g v of
                          None \<Rightarrow> Done (Inl KeyError)
                        | Some nbrs \<Rightarrow>
                            (case relax_all d v nbrs st2 of
                               Inl err \<Rightarrow> Done (Inl err)
                             | Inr st3 \<Rightarrow> Next st3)))))"

text \<open>
  The loop ends: a round either takes an entry off a heap without finishing a node, or
  finishes a node of the graph in one direction, which happens once per node and
  direction.
\<close>

definition unfinished :: "nx_graph \<Rightarrow> bd_state \<Rightarrow> nat" where
  "unfinished g st =
     length (filter (\<lambda>v. dists st False v = None) (nodes g)) +
     length (filter (\<lambda>v. dists st True v = None) (nodes g))"

definition pending :: "bd_state \<Rightarrow> nat" where
  "pending st = length (fringe st False) + length (fringe st True)"

lemma heap_min_in_set: "xs \<noteq> [] \<Longrightarrow> heap_min xs \<in> set xs"
  by (induction xs rule: heap_min.induct) (auto simp: Let_def)

lemma dists_set_final: "set_final w t st = Inr st' \<Longrightarrow> dists st' = dists st"
  by (auto simp: set_final_def split: option.splits)

lemma dists_check_meeting: "check_meeting w st = Inr st' \<Longrightarrow> dists st' = dists st"
  by (auto simp: check_meeting_def Let_def split: option.splits if_splits dest!: dists_set_final)

lemma dists_relax_update: "relax_update d v w l st = Inr st' \<Longrightarrow> dists st' = dists st"
  by (auto simp: relax_update_def split: option.splits dest!: dists_check_meeting)

lemma dists_relax: "relax d v st e = Inr st' \<Longrightarrow> dists st' = dists st"
  by (auto simp: relax_def Let_def split: option.splits if_splits dest!: dists_relax_update)

lemma dists_relax_all: "relax_all d v es st = Inr st' \<Longrightarrow> dists st' = dists st"
proof (induction es arbitrary: st)
  case Nil
  then show ?case by simp
next
  case (Cons e es)
  from Cons.prems obtain st1 where 1: "relax d v st e = Inr st1"
    and 2: "relax_all d v es st1 = Inr st'"
    by (auto split: sum.splits)
  from Cons.IH[OF 2] dists_relax[OF 1] show ?case by simp
qed

lemma filter_length_less:
  assumes "v \<in> set xs" "P v" "\<not> Q v" "\<And>x. Q x \<Longrightarrow> P x"
  shows "length (filter Q xs) < length (filter P xs)"
  using assms(1)
proof (induction xs)
  case Nil
  then show ?case by simp
next
  case (Cons x xs)
  have le: "length (filter Q ys) \<le> length (filter P ys)" for ys
    by (induction ys) (auto dest: assms(4))
  show ?case
  proof (cases "x = v")
    case True
    then show ?thesis using assms(2,3) le[of xs] by simp
  next
    case False
    with Cons have "length (filter Q xs) < length (filter P xs)" by simp
    then show ?thesis using assms(4)[of x] by auto
  qed
qed

lemma bd_step_decreases:
  assumes "bd_step g st = Next st'"
  shows "unfinished g st' < unfinished g st \<or>
         (unfinished g st' = unfinished g st \<and> pending st' < pending st)"
proof -
  let ?d = "\<not> dir st"
  let ?top = "heap_min (fringe st ?d)"
  let ?v = "snd (snd ?top)"
  let ?st1 = "st\<lparr>dir := ?d, fringe := (fringe st)(?d := remove1 ?top (fringe st ?d))\<rparr>"
  let ?st2 = "?st1\<lparr>dists := (dists ?st1)(?d := (dists ?st1 ?d)(?v \<mapsto> fst ?top))\<rparr>"
  from assms have ne: "fringe st False \<noteq> []" "fringe st True \<noteq> []"
    by (auto simp: bd_step_def split: if_splits)
  then have "fringe st ?d \<noteq> []" by (cases "dir st") simp_all
  then have top: "?top \<in> set (fringe st ?d)" by (rule heap_min_in_set)
  show ?thesis
  proof (cases "dists st ?d ?v = None")
    case False
    with assms ne have st': "st' = ?st1"
      by (simp add: bd_step_def Let_def)
    have "length (remove1 ?top (fringe st ?d)) < length (fringe st ?d)"
      using top by (simp add: length_remove1) (cases "fringe st ?d"; simp)
    then have "pending st' < pending st"
      unfolding st' pending_def by (cases "dir st") simp_all
    moreover have "unfinished g st' = unfinished g st"
      unfolding st' unfinished_def by simp
    ultimately show ?thesis by simp
  next
    case True
    with assms ne obtain nbrs where nb: "map_of g ?v = Some nbrs"
      and r: "relax_all ?d ?v nbrs ?st2 = Inr st'"
      by (auto simp: bd_step_def Let_def split: if_splits option.splits sum.splits)
    have d': "dists st' = dists ?st2" using r by (rule dists_relax_all)
    from nb have vin: "?v \<in> set (nodes g)"
      by (auto simp: nodes_def dest: map_of_SomeD intro: rev_image_eqI)
    have less: "length (filter (\<lambda>x. ((dists st ?d)(?v \<mapsto> fst ?top)) x = None) (nodes g))
                  < length (filter (\<lambda>x. dists st ?d x = None) (nodes g))"
      using vin True by (rule filter_length_less) (simp_all split: if_splits)
    have "unfinished g st' < unfinished g st"
      unfolding unfinished_def d' using less by (cases "dir st") simp_all
    then show ?thesis by simp
  qed
qed

function bd_loop :: "nx_graph \<Rightarrow> bd_state \<Rightarrow> nx_error + real \<times> node list" where
  "bd_loop g st = (case bd_step g st of Done r \<Rightarrow> r | Next st' \<Rightarrow> bd_loop g st')"
  by pat_completeness auto
termination
proof (relation "measures [\<lambda>(g, st). unfinished g st, \<lambda>(g, st). pending st]")
  fix g st st'
  assume "bd_step g st = Next st'"
  then show "((g, st'), (g, st))
       \<in> measures [\<lambda>(g, st). unfinished g st, \<lambda>(g, st). pending st]"
    using bd_step_decreases[of g st st'] by auto
qed simp

declare bd_loop.simps [simp del]

text \<open>
  \<^verbatim>\<open>bidirectional_dijkstra(G, source, target, weight='weight')\<close>: the checks before the loop
  and the initial state. The first round flips \<^verbatim>\<open>dir\<close> from 1 to 0.
\<close>

definition bd_init :: "node \<Rightarrow> node \<Rightarrow> bd_state" where
  "bd_init source target =
     \<lparr>dists = (\<lambda>d. Map.empty),
      paths = (\<lambda>d. if d then [target \<mapsto> [target]] else [source \<mapsto> [source]]),
      fringe = (\<lambda>d. if d then [(0, 1, target)] else [(0, 0, source)]),
      seen = (\<lambda>d. if d then [target \<mapsto> 0] else [source \<mapsto> 0]),
      counter = 2,
      finaldist = None,
      finalpath = [],
      dir = True\<rparr>"

definition bidirectional_dijkstra ::
  "nx_graph \<Rightarrow> node \<Rightarrow> node \<Rightarrow> nx_error + real \<times> node list" where
  "bidirectional_dijkstra g source target =
     (if \<not> has_node g source \<or> \<not> has_node g target then Inl NodeNotFound
      else if source = target then Inr (0, [source])
      else bd_loop g (bd_init source target))"

text \<open>\<^verbatim>\<open>nx.shortest_path(G, source, target, weight='weight')\<close>\<close>

definition shortest_path :: "nx_graph \<Rightarrow> node \<Rightarrow> node \<Rightarrow> nx_error + node list" where
  "shortest_path g source target =
     (case bidirectional_dijkstra g source target of
        Inl err \<Rightarrow> Inl err
      | Inr r \<Rightarrow> Inr (snd r))"

subsection \<open>\<^verbatim>\<open>GraphAnalyzer.detect_lateral_movement\<close> and \<^verbatim>\<open>get_attack_paths\<close>\<close>

text \<open>
  \<^verbatim>\<open>sum(self.graph[path[i]][path[i+1]]['weight'] for i in range(len(path) - 1))\<close>; \<open>None\<close>
  where a lookup raises KeyError.
\<close>

fun sum_edge_weights :: "nx_graph \<Rightarrow> node list \<Rightarrow> real option" where
  "sum_edge_weights g (u # v # rest) =
     (case edge_data g u v of
        None \<Rightarrow> None
      | Some a \<Rightarrow> map_option (\<lambda>r. weight a + r) (sum_edge_weights g (v # rest)))"
| "sum_edge_weights g [u] = Some 0"
| "sum_edge_weights g [] = Some 0"

text \<open>The dictionary returned on every path of the method that found no path.\<close>

definition no_movement :: lm_result where
  "no_movement = \<lparr>risk_score = 0, path = [], path_length = None,
                    is_suspicious = False, total_weight = None\<rparr>"

text \<open>
  Every exception inside the \<^verbatim>\<open>try\<close> block is caught and turned into the dictionary
  without a path.
\<close>

definition detect_lateral_movement :: "graph_analyzer \<Rightarrow> node \<Rightarrow> node \<Rightarrow> lm_result" where
  "detect_lateral_movement ga source target =
     (if \<not> is_initialized ga \<or> \<not> has_node (graph ga) source \<or> \<not> has_node (graph ga) target
      then no_movement
      else if has_path (graph ga) source target
      then (case shortest_path (graph ga) source target of
              Inl err \<Rightarrow> no_movement
            | Inr p \<Rightarrow>
                (let path_len = int (length p) - 1
                 in case sum_edge_weights (graph ga) p of
                      None \<Rightarrow> no_movement
                    | Some tw \<Rightarrow>
                        (let risk = min 1 (real_of_int path_len * tw / 10)
                         in \<lparr>risk_score = risk, path = p, path_length = Some path_len,
                             is_suspicious = (risk > 0.7), total_weight = Some tw\<rparr>)))
      else no_movement)"

text \<open>
  An entry of the list that \<^verbatim>\<open>get_attack_paths\<close> returns: the dictionary
  \<^verbatim>\<open>{"source": source, "target": target, **result}\<close>.
\<close>

record attack_path =
  ap_source :: node
  ap_target :: node
  ap_result :: lm_result

text \<open>The pairs \<^verbatim>\<open>(nodes[i], nodes[j])\<close> with \<open>i < j\<close>, in the order of the two loops.\<close>

fun pairs :: "'a list \<Rightarrow> ('a \<times> 'a) list" where
  "pairs [] = []"
| "pairs (x # xs) = map (Pair x) xs @ pairs xs"

text \<open>
  \<^verbatim>\<open>sorted(attack_paths, key=lambda x: x["risk_score"], reverse=True)\<close>: Python's sort is
  stable, also with \<^verbatim>\<open>reverse=True\<close>, so entries of equal score keep their order; that is
  the stable insertion sort on the negated key.
\<close>

definition get_attack_paths :: "graph_analyzer \<Rightarrow> real \<Rightarrow> attack_path list" where
  "get_attack_paths ga risk_threshold =
     (if \<not> is_initialized ga then []
      else
        (let attack_paths =
               filter (\<lambda>x. risk_score (ap_result x) > risk_threshold)
                 (map (\<lambda>(s, t). \<lparr>ap_source = s, ap_target = t,
                                   ap_result = detect_lateral_movement ga s t\<rparr>)
                      (pairs (nodes (graph ga))))
         in sort_key (\<lambda>x. - risk_score (ap_result x)) attack_paths))"

subsection \<open>The cache of the \<^verbatim>\<open>/attack-paths\<close> endpoint\<close>






subsection \<open>The order the specification asks of the ranked list\<close>

text \<open>
  Python compares strings by code point. The specification breaks ties between entries
  of equal score by (source, target) in that order; the definitions below state this
  order, to compare it with what \<^verbatim>\<open>get_attack_paths\<close> returns.
\<close>

fun spec_str_le :: "string \<Rightarrow> string \<Rightarrow> bool" where
  "spec_str_le [] ys = True"
| "spec_str_le (x # xs) [] = False"
| "spec_str_le (x # xs) (y # ys) =
     ((of_char x :: nat) < of_char y \<or> (x = y \<and> spec_str_le xs ys))"

definition spec_pair_le :: "string \<times> string \<Rightarrow> string \<times> string \<Rightarrow> bool" where
  "spec_pair_le p q =
     (if fst p = fst q then spec_str_le (snd p) (snd q) else spec_str_le (fst p) (fst q))"

definition spec_ranked :: "attack_path \<Rightarrow> attack_path \<Rightarrow> bool" where
  "spec_ranked x y =
     (risk_score (ap_result y) < risk_score (ap_result x) \<or>
      (risk_score (ap_result x) = risk_score (ap_result y) \<and>
       spec_pair_le (ap_source x, ap_target x) (ap_source y, ap_target y)))"

subsection \<open>Example analyzers\<close>

text \<open>The graph with the edges A-B (weight 3, login) and B-C (weight 2, file-transfer).\<close>

definition abc_analyzer :: graph_analyzer where
  "abc_analyzer =
     add_connection (add_connection (initialize init_analyzer) ''A'' ''B'' ''login'' 3)
       ''B'' ''C'' ''file-transfer'' 2"

text \<open>Two separate edges of the same weight, D-C observed before B-A.\<close>

definition tie_analyzer :: graph_analyzer where
  "tie_analyzer =
     add_connection (add_connection (initialize init_analyzer) ''D'' ''C'' ''login'' 8)
       ''B'' ''A'' ''login'' 8"

text \<open>A triangle: A-B and B-C of weight 1, A-C of weight 3.\<close>

definition triangle_analyzer :: graph_analyzer where
  "triangle_analyzer =
     add_connection (add_connection (add_connection (initialize init_analyzer)
       ''A'' ''B'' ''login'' 1) ''B'' ''C'' ''login'' 1) ''A'' ''C'' ''login'' 3"

text \<open>An edge of negative weight: A-B of weight -1, B-C of weight 5.\<close>

definition negative_analyzer :: graph_analyzer where
  "negative_analyzer =
     add_connection (add_connection (initialize init_analyzer) ''A'' ''B'' ''login'' (- 1))
       ''B'' ''C'' ''login'' 5"

section \<open>Facts about the graph operations\<close>

lemma map_of_add_node: "map_of (add_node g u) x = (if x = u \<and> \<not> has_node g u then Some [] else map_of g x)"
  by (auto simp: add_node_def has_node_def map_add_def split: option.splits)

lemma nodes_add_node: "nodes (add_node g u) = (if has_node g u then nodes g else nodes g @ [u])"
  by (simp add: add_node_def nodes_def)

lemma has_node_nodes: "has_node g u \<longleftrightarrow> u \<in> set (nodes g)"
  by (simp add: has_node_def nodes_def map_of_eq_None_iff)

lemma map_of_set_adj:
  "map_of (set_adj g u v a) x =
     (case map_of g u of None \<Rightarrow> map_of g x
      | Some nb \<Rightarrow> if x = u then Some (AList.update v a nb) else map_of g x)"
  by (simp add: set_adj_def update_conv' split: option.splits)

lemma nodes_set_adj: "nodes (set_adj g u v a) = nodes g"
  by (auto simp: set_adj_def nodes_def update_keys map_of_eq_None_iff split: option.splits)

lemma has_node_set_adj: "has_node (set_adj g u v a) x = has_node g x"
  by (simp add: has_node_nodes nodes_set_adj)

lemma edge_data_set_adj:
  "edge_data (set_adj g u v a) x y =
     (if has_node g u \<and> x = u \<and> y = v then Some a else edge_data g x y)"
proof (cases "map_of g u")
  case None
  then show ?thesis by (simp add: set_adj_def has_node_def)
next
  case (Some nb)
  then have m: "map_of (set_adj g u v a) = (map_of g)(u \<mapsto> AList.update v a nb)"
    by (simp add: set_adj_def update_conv')
  show ?thesis
  proof (cases "x = u")
    case True
    then show ?thesis using Some by (simp add: edge_data_def m has_node_def update_conv')
  next
    case False
    then show ?thesis by (simp add: edge_data_def m)
  qed
qed

lemma edge_data_has_node: "edge_data g u v = Some a \<Longrightarrow> has_node g u"
  by (cases "map_of g u") (simp_all add: edge_data_def has_node_def)

lemma edge_data_add_node: "edge_data (add_node g u) x y = edge_data g x y"
proof (cases "x = u \<and> \<not> has_node g u")
  case True
  then show ?thesis by (simp add: edge_data_def map_of_add_node has_node_def)
next
  case False
  then have "map_of (add_node g u) x = map_of g x"
    unfolding map_of_add_node by (rule if_not_P)
  then show ?thesis by (simp add: edge_data_def)
qed

lemma has_node_add_node: "has_node (add_node g u) x \<longleftrightarrow> x = u \<or> has_node g x"
  by (cases "has_node g u") (auto simp: has_node_nodes nodes_add_node)

lemma if_or_merge: "(if Q then s else if P then s else e) = (if P \<or> Q then s else e)"
  by simp

lemma edge_data_add_edge:
  "edge_data (add_edge g u v a) x y =
     (if (x = u \<and> y = v) \<or> (x = v \<and> y = u) then Some a else edge_data g x y)"
proof -
  let ?G = "add_node (add_node g u) v"
  have hu: "has_node ?G u" and hv: "has_node ?G v"
    by (simp_all add: has_node_add_node)
  have e0: "edge_data ?G x y = edge_data g x y"
    by (simp only: edge_data_add_node)
  have e1: "edge_data (set_adj ?G u v a) x y =
              (if x = u \<and> y = v then Some a else edge_data g x y)"
    by (simp only: edge_data_set_adj hu e0 simp_thms)
  have hv': "has_node (set_adj ?G u v a) v"
    by (simp only: has_node_set_adj hv)
  have "edge_data (set_adj (set_adj ?G u v a) v u a) x y =
          (if x = v \<and> y = u then Some a else edge_data (set_adj ?G u v a) x y)"
    by (simp only: edge_data_set_adj hv' simp_thms)
  then show ?thesis
    unfolding add_edge_def by (simp only: e1 if_or_merge)
qed

lemma nodes_add_edge: "nodes (add_edge g u v a) = nodes (add_node (add_node g u) v)"
  by (simp add: add_edge_def nodes_set_adj)


lemma edge_data_update_edge:
  assumes "edge_data g u v = Some a"
  shows "edge_data (update_edge g u v f) x y =
     (if (x = u \<and> y = v) \<or> (has_node g v \<and> x = v \<and> y = u) then Some (f a)
      else edge_data g x y)"
proof -
  have hu: "has_node g u" using assms by (rule edge_data_has_node)
  have e1: "edge_data (set_adj g u v (f a)) x y =
              (if x = u \<and> y = v then Some (f a) else edge_data g x y)"
    by (simp only: edge_data_set_adj hu simp_thms)
  have "edge_data (set_adj (set_adj g u v (f a)) v u (f a)) x y =
          (if has_node g v \<and> x = v \<and> y = u then Some (f a)
           else edge_data (set_adj g u v (f a)) x y)"
    by (simp only: edge_data_set_adj has_node_set_adj)
  then have "edge_data (set_adj (set_adj g u v (f a)) v u (f a)) x y =
     (if (x = u \<and> y = v) \<or> (has_node g v \<and> x = v \<and> y = u) then Some (f a)
      else edge_data g x y)"
    by (simp only: e1 if_or_merge)
  then show ?thesis using assms by (simp only: update_edge_def option.case)
qed

lemma nodes_update_edge: "nodes (update_edge g u v f) = nodes g"
  by (simp add: update_edge_def nodes_set_adj split: option.splits)


lemma wf_graph_alt:
  "wf_graph g \<longleftrightarrow>
     distinct (map fst g) \<and>
     (\<forall>u nb. map_of g u = Some nb \<longrightarrow> distinct (map fst nb)) \<and>
     (\<forall>u v a. edge_data g u v = Some a \<longrightarrow> edge_data g v u = Some a)"
  (is "?L \<longleftrightarrow> ?R")
proof
  assume L: ?L
  then have d: "distinct (map fst g)" by (simp add: wf_graph_def)
  have a: "\<And>u nb. map_of g u = Some nb \<Longrightarrow> distinct (map fst nb)"
    using L by (auto simp: wf_graph_def dest!: map_of_SomeD)
  have b: "\<And>u v a. edge_data g u v = Some a \<Longrightarrow> edge_data g v u = Some a"
  proof -
    fix u v a assume "edge_data g u v = Some a"
    then obtain nb where nb: "map_of g u = Some nb" "map_of nb v = Some a"
      by (auto simp: edge_data_def split: option.splits)
    then have "(u, nb) \<in> set g" "(v, a) \<in> set nb" by (auto dest: map_of_SomeD)
    with L show "edge_data g v u = Some a" by (fastforce simp: wf_graph_def)
  qed
  from d a b show ?R by blast
next
  assume R: ?R
  show ?L unfolding wf_graph_def
  proof (intro conjI ballI)
    show "distinct (map fst g)" using R by simp
  next
    fix x assume x: "x \<in> set g"
    obtain u nb where [simp]: "x = (u, nb)" by (cases x)
    from x R have m: "map_of g u = Some nb" by simp
    with R have dn: "distinct (map fst nb)" by blast
    have "\<forall>(v, a) \<in> set nb. edge_data g v u = Some a"
    proof (clarify)
      fix v a assume "(v, a) \<in> set nb"
      with dn have "map_of nb v = Some a" by simp
      with m have "edge_data g u v = Some a" by (simp add: edge_data_def)
      with R show "edge_data g v u = Some a" by blast
    qed
    with dn show "case x of (u, nb) \<Rightarrow> distinct (map fst nb) \<and> (\<forall>(v, a) \<in> set nb. edge_data g v u = Some a)"
      by simp
  qed
qed

lemma wf_graph_sym: "wf_graph g \<Longrightarrow> edge_data g u v = edge_data g v u"
  by (metis wf_graph_alt not_Some_eq)

lemma wf_graph_empty: "wf_graph []"
  by (simp add: wf_graph_def)

lemma distinct_nodes_set_adj: "distinct (map fst (set_adj g u v a)) = distinct (map fst g)"
  using nodes_set_adj[of g u v a] by (simp add: nodes_def)

lemma distinct_nb_set_adj:
  assumes n: "\<And>x nb. map_of g x = Some nb \<Longrightarrow> distinct (map fst nb)"
    and m: "map_of (set_adj g u v a) x = Some nb"
  shows "distinct (map fst nb)"
proof (cases "map_of g u")
  case None
  with m have "map_of g x = Some nb" by (simp add: set_adj_def)
  then show ?thesis by (rule n)
next
  case (Some nbu)
  show ?thesis
  proof (cases "x = u")
    case True
    with m Some have "nb = AList.update v a nbu" by (simp add: map_of_set_adj)
    moreover have "distinct (map fst nbu)" using Some by (rule n)
    ultimately show ?thesis by (simp add: distinct_update)
  next
    case False
    with m Some have "map_of g x = Some nb" by (simp add: map_of_set_adj)
    then show ?thesis by (rule n)
  qed
qed

lemma wf_graph_add_node:
  assumes "wf_graph g"
  shows "wf_graph (add_node g u)"
proof (cases "has_node g u")
  case True
  then show ?thesis using assms by (simp add: add_node_def)
next
  case False
  from assms have d: "distinct (map fst g)"
    and n: "\<And>x nb. map_of g x = Some nb \<Longrightarrow> distinct (map fst nb)"
    and s: "\<And>x y a. edge_data g x y = Some a \<Longrightarrow> edge_data g y x = Some a"
    unfolding wf_graph_alt by blast+
  have d': "distinct (map fst (add_node g u))"
    using d False nodes_add_node[of g u] by (simp add: nodes_def has_node_nodes)
  have n': "distinct (map fst nb)" if "map_of (add_node g u) x = Some nb" for x nb
  proof (cases "x = u")
    case True
    with that False have "nb = []" by (simp add: map_of_add_node)
    then show ?thesis by simp
  next
    case ne: False
    with that have "map_of g x = Some nb" by (simp add: map_of_add_node)
    then show ?thesis by (rule n)
  qed
  have s': "edge_data (add_node g u) y x = Some a"
    if h: "edge_data (add_node g u) x y = Some a" for x y a
  proof -
    from h have "edge_data g x y = Some a" by (simp only: edge_data_add_node)
    then have "edge_data g y x = Some a" by (rule s)
    then show ?thesis by (simp only: edge_data_add_node)
  qed
  from d' n' s' show ?thesis unfolding wf_graph_alt by blast
qed

lemma wf_graph_set_adj2:
  assumes wf: "wf_graph g" and hu: "has_node g u" and hv: "has_node g v"
  shows "wf_graph (set_adj (set_adj g u v a) v u a)"
proof -
  let ?g1 = "set_adj g u v a"
  let ?g2 = "set_adj ?g1 v u a"
  from wf have d: "distinct (map fst g)"
    and n: "\<And>x nb. map_of g x = Some nb \<Longrightarrow> distinct (map fst nb)"
    and s: "\<And>x y b. edge_data g x y = Some b \<Longrightarrow> edge_data g y x = Some b"
    unfolding wf_graph_alt by blast+
  have d': "distinct (map fst ?g2)"
    using d by (simp only: distinct_nodes_set_adj)
  have n1: "distinct (map fst nb)" if "map_of ?g1 x = Some nb" for x nb
    using n that by (rule distinct_nb_set_adj)
  have n': "distinct (map fst nb)" if "map_of ?g2 x = Some nb" for x nb
    using n1 that by (rule distinct_nb_set_adj)
  have e: "edge_data ?g2 x y =
             (if (x = u \<and> y = v) \<or> (x = v \<and> y = u) then Some a else edge_data g x y)"
    for x y
  proof -
    have e1: "edge_data ?g1 x y = (if x = u \<and> y = v then Some a else edge_data g x y)"
      by (simp only: edge_data_set_adj hu simp_thms)
    have hv': "has_node ?g1 v" by (simp only: has_node_set_adj hv)
    have "edge_data ?g2 x y = (if x = v \<and> y = u then Some a else edge_data ?g1 x y)"
      by (simp only: edge_data_set_adj hv' simp_thms)
    then show ?thesis by (simp only: e1 if_or_merge)
  qed
  have s': "edge_data ?g2 y x = Some b" if h: "edge_data ?g2 x y = Some b" for x y b
  proof (cases "(x = u \<and> y = v) \<or> (x = v \<and> y = u)")
    case True
    then have "(y = u \<and> x = v) \<or> (y = v \<and> x = u)" by blast
    then have "edge_data ?g2 y x = Some a" by (simp only: e if_True)
    moreover from True h have "b = a" by (simp only: e if_True option.inject)
    ultimately show ?thesis by simp
  next
    case False
    then have F': "\<not> ((y = u \<and> x = v) \<or> (y = v \<and> x = u))" by blast
    from False h have "edge_data g x y = Some b" by (simp only: e if_False)
    then have "edge_data g y x = Some b" by (rule s)
    then show ?thesis using F' by (simp only: e if_False)
  qed
  from d' n' s' show ?thesis unfolding wf_graph_alt by blast
qed

lemma wf_graph_add_edge: "wf_graph g \<Longrightarrow> wf_graph (add_edge g u v a)"
  unfolding add_edge_def
  by (intro wf_graph_set_adj2 wf_graph_add_node) (auto simp: has_node_add_node)

lemma wf_graph_update_edge:
  assumes "wf_graph g"
  shows "wf_graph (update_edge g u v f)"
proof (cases "edge_data g u v")
  case None
  then show ?thesis using assms by (simp add: update_edge_def)
next
  case (Some a)
  then have "edge_data g v u = Some a" using wf_graph_sym[OF assms, of u v] by simp
  with Some have "has_node g u" "has_node g v" by (auto dest: edge_data_has_node)
  with assms Some show ?thesis by (simp add: update_edge_def wf_graph_set_adj2)
qed

lemma wf_graph_add_connection: "wf_graph (graph ga) \<Longrightarrow> wf_graph (graph (add_connection ga s t ct w))"
  by (simp add: add_connection_def wf_graph_add_edge wf_graph_update_edge)

section \<open>Signal fusion\<close>

lemma calculate_threat_score_fusion:
  "calculate_threat_score (fusion_inputs a cls conf g) =
     min 1 (0.3 * a +
            (if cls = ''malicious'' then conf * 0.4
             else if cls = ''suspicious'' then conf * 0.5 * 0.4 else 0) +
            0.3 * g)"
  by (simp add: calculate_threat_score_def fusion_inputs_def get_or_def Let_def mult.commute)



text \<open>
  C7. With the label fixed and all inputs in \<open>[0, 1]\<close>, raising the anomaly score, the
  confidence or the graph risk never lowers the fused score, and the fused score lies in
  \<open>[0, 1]\<close>.
\<close>

theorem C7_fuse_monotone_bounded:
  assumes "0 \<le> a" "a \<le> a'" "a' \<le> 1" "0 \<le> c" "c \<le> c'" "c' \<le> 1"
    and "0 \<le> g" "g \<le> g'" "g' \<le> 1"
  shows "calculate_threat_score (fusion_inputs a cls c g)
           \<le> calculate_threat_score (fusion_inputs a' cls c g) \<and>
         calculate_threat_score (fusion_inputs a cls c g)
           \<le> calculate_threat_score (fusion_inputs a cls c' g) \<and>
         calculate_threat_score (fusion_inputs a cls c g)
           \<le> calculate_threat_score (fusion_inputs a cls c g') \<and>
         0 \<le> calculate_threat_score (fusion_inputs a cls c g) \<and>
         calculate_threat_score (fusion_inputs a cls c g) \<le> 1"
  using assms by (auto simp add: calculate_threat_score_fusion min_def)

theorem C7_fuse_monotone_bounded_witness:
  "calculate_threat_score (fusion_inputs (1/5) ''malicious'' (1/2) (1/10))
     \<le> calculate_threat_score (fusion_inputs (9/10) ''malicious'' (1/2) (1/10)) \<and>
   calculate_threat_score (fusion_inputs (1/5) ''malicious'' (1/2) (1/10))
     \<le> calculate_threat_score (fusion_inputs (1/5) ''malicious'' 1 (1/10)) \<and>
   calculate_threat_score (fusion_inputs (1/5) ''malicious'' (1/2) (1/10))
     \<le> calculate_threat_score (fusion_inputs (1/5) ''malicious'' (1/2) (4/5)) \<and>
   0 \<le> calculate_threat_score (fusion_inputs (1/5) ''malicious'' (1/2) (1/10)) \<and>
   calculate_threat_score (fusion_inputs (1/5) ''malicious'' (1/2) (1/10)) \<le> 1"
  using C7_fuse_monotone_bounded [of "1/5" "9/10" "1/2" 1 "1/10" "4/5" "''malicious''"]
  by simp

section \<open>\<^verbatim>\<open>add_connection\<close>\<close>






lemma graph_add_connection_new:
  assumes "is_initialized ga" "\<not> has_edge (graph ga) s t"
  shows "graph (add_connection ga s t ct w) =
           add_edge (graph ga) s t \<lparr>weight = w, types = {ct}\<rparr>"
  using assms by (simp add: add_connection_def)

lemma graph_add_connection_old:
  assumes "is_initialized ga" "has_edge (graph ga) s t"
  shows "graph (add_connection ga s t ct w) =
           update_edge (graph ga) s t
             (\<lambda>a. a\<lparr>weight := weight a + w, types := insert ct (types a)\<rparr>)"
  using assms by (simp add: add_connection_def)

lemma is_initialized_add_connection:
  "is_initialized (add_connection ga s t ct w) = is_initialized ga"
  by (simp add: add_connection_def)

lemma nodes_add_edge_set: "set (nodes (add_edge g u v a)) = set (nodes g) \<union> {u, v}"
  by (auto simp: nodes_add_edge nodes_add_node has_node_nodes)

text \<open>
  What one call does to an initialized analyzer whose graph is well formed: both
  identifiers are nodes afterwards and no other node appears; the edge carries the old
  weight plus \<open>w\<close>, or \<open>w\<close> if it is new, and the connection type is among its tags; it is
  stored in both directions.
\<close>

lemma add_connection_effect:
  fixes ga :: graph_analyzer and s t :: node and ct :: string and w :: real
  assumes init: "is_initialized ga" and wf: "wf_graph (graph ga)"
  defines "g' \<equiv> graph (add_connection ga s t ct w)"
  shows "set (nodes g') = set (nodes (graph ga)) \<union> {s, t}"
    and "edge_data g' s t =
           Some (case edge_data (graph ga) s t of
                   None \<Rightarrow> \<lparr>weight = w, types = {ct}\<rparr>
                 | Some a \<Rightarrow> a\<lparr>weight := weight a + w, types := insert ct (types a)\<rparr>)"
    and "edge_data g' t s = edge_data g' s t"
proof -
  let ?g = "graph ga"
  let ?f = "\<lambda>a. a\<lparr>weight := weight a + w, types := insert ct (types a)\<rparr>"
  have wf': "wf_graph g'"
    unfolding g'_def using wf by (rule wf_graph_add_connection)
  show sym: "edge_data g' t s = edge_data g' s t"
    using wf' by (rule wf_graph_sym)
  show "set (nodes g') = set (nodes ?g) \<union> {s, t}"
  proof (cases "has_edge ?g s t")
    case False
    then show ?thesis
      unfolding g'_def by (simp only: graph_add_connection_new[OF init False] nodes_add_edge_set)
  next
    case True
    then obtain a where a: "edge_data ?g s t = Some a" by (auto simp: has_edge_def)
    then have "edge_data ?g t s = Some a" using wf_graph_sym[OF wf, of s t] by simp
    with a have "s \<in> set (nodes ?g)" "t \<in> set (nodes ?g)"
      by (auto dest: edge_data_has_node simp: has_node_nodes)
    then show ?thesis
      unfolding g'_def
      by (auto simp: graph_add_connection_old[OF init True] nodes_update_edge)
  qed
  show "edge_data g' s t =
           Some (case edge_data ?g s t of
                   None \<Rightarrow> \<lparr>weight = w, types = {ct}\<rparr>
                 | Some a \<Rightarrow> ?f a)"
  proof (cases "edge_data ?g s t")
    case None
    then have "\<not> has_edge ?g s t" by (simp add: has_edge_def)
    then show ?thesis
      unfolding g'_def using None
      by (simp add: graph_add_connection_new[OF init] edge_data_add_edge has_edge_def)
  next
    case (Some a)
    then have "has_edge ?g s t" by (simp add: has_edge_def)
    then show ?thesis
      unfolding g'_def using Some
      by (simp add: graph_add_connection_old[OF init] edge_data_update_edge[OF Some] has_edge_def)
  qed
qed

text \<open>
  C4 (as amended). \<^verbatim>\<open>add_connection\<close> has no check on the identifiers and no error to
  fail with. On an initialized analyzer every call, with empty identifiers or not, leaves
  both identifiers among the nodes and adds no other node, and the edge between them
  carries the old weight plus the given weight, or the given weight where the edge is
  new.
\<close>

theorem C4_add_connection_inserts_and_adds:
  assumes "is_initialized ga" and "wf_graph (graph ga)"
  shows "has_node (graph (add_connection ga s t ct w)) s \<and>
         has_node (graph (add_connection ga s t ct w)) t \<and>
         set (nodes (graph (add_connection ga s t ct w))) = set (nodes (graph ga)) \<union> {s, t} \<and>
         map_option weight (edge_data (graph (add_connection ga s t ct w)) s t) =
           Some (case edge_data (graph ga) s t of None \<Rightarrow> w | Some a \<Rightarrow> weight a + w) \<and>
         edge_data (graph (add_connection ga s t ct w)) t s =
           edge_data (graph (add_connection ga s t ct w)) s t"
  using add_connection_effect[OF assms, of s t ct w]
  by (cases "edge_data (graph ga) s t") (simp_all add: has_node_nodes)

theorem C4_add_connection_inserts_and_adds_witness:
  "has_node (graph (add_connection (initialize init_analyzer) [] ''B'' ''login'' 1)) [] \<and>
   has_node (graph (add_connection (initialize init_analyzer) [] ''B'' ''login'' 1)) ''B'' \<and>
   map_option weight
     (edge_data (graph (add_connection (initialize init_analyzer) [] ''B'' ''login'' 1)) [] ''B'')
     = Some 1"
proof -
  have i: "is_initialized (initialize init_analyzer)"
    by (simp add: initialize_def)
  have w: "wf_graph (graph (initialize init_analyzer))"
    by (simp add: initialize_def init_analyzer_def wf_graph_empty)
  have e: "edge_data (graph (initialize init_analyzer)) [] ''B'' = None"
    by (simp add: initialize_def init_analyzer_def edge_data_def)
  show ?thesis
    using C4_add_connection_inserts_and_adds[OF i w, of "[]" "''B''" "''login''" 1]
    by (simp add: e)
qed

text \<open>
  The claim as the specification states it fails: with the empty string as source, the
  call on an initialized empty analyzer stores the node \<open>''''\<close> and the edge, so the
  graph is not what it was before the call.
\<close>

theorem C4_empty_id_counterexample:
  "graph (add_connection (initialize init_analyzer) [] ''B'' ''login'' 1) =
     [([], [(''B'', \<lparr>weight = 1, types = {''login''}\<rparr>)]),
      (''B'', [([], \<lparr>weight = 1, types = {''login''}\<rparr>)])] \<and>
   add_connection (initialize init_analyzer) [] ''B'' ''login'' 1 \<noteq> initialize init_analyzer"
  by (simp add: add_connection_def initialize_def init_analyzer_def has_edge_def edge_data_def
      add_edge_def add_node_def has_node_def set_adj_def)



text \<open>
  C10. Before \<^verbatim>\<open>initialize\<close> has run, \<^verbatim>\<open>add_connection\<close> returns without an error and
  leaves the analyzer, and so the graph, as it was; the model of the call has no error
  result at all, as the method has none.
\<close>

theorem C10_uninitialized_add_is_dropped:
  assumes "\<not> is_initialized ga"
  shows "add_connection ga source target connection_type w = ga"
  using assms by (simp add: add_connection_def)

theorem C10_uninitialized_add_is_dropped_witness:
  "\<not> is_initialized init_analyzer \<and>
   add_connection init_analyzer ''A'' ''B'' ''login'' 1 = init_analyzer"
proof -
  have n: "\<not> is_initialized init_analyzer" by (simp add: init_analyzer_def)
  show ?thesis
    using n C10_uninitialized_add_is_dropped[OF n, of "''A''" "''B''" "''login''" 1] by simp
qed

section \<open>\<^verbatim>\<open>detect_lateral_movement\<close>: what holds without looking into the search\<close>

lemma reach_visited: "set visited \<subseteq> set (reach g work visited)"
  by (induction g work visited rule: reach.induct) auto

lemma has_path_refl: "has_node g a \<Longrightarrow> has_path g a a"
  using reach_visited[of "[a]" g "neighbors g a"] by (simp add: has_path_def)

lemma shortest_path_refl: "has_node g a \<Longrightarrow> shortest_path g a a = Inr [a]"
  by (simp add: shortest_path_def bidirectional_dijkstra_def)

lemma risk_score_le_1: "risk_score (detect_lateral_movement ga s t) \<le> 1"
  by (simp add: detect_lateral_movement_def no_movement_def Let_def
      split: sum.splits option.splits)

text \<open>
  C8. The score of an asset with itself has risk \<open>0\<close>, whatever the analyzer holds. For a
  node of an initialized analyzer the search returns the path of the node alone: no edge,
  weight \<open>0\<close>.
\<close>

theorem C8_self_score_zero:
  "risk_score (detect_lateral_movement ga a a) = 0 \<and>
   (is_initialized ga \<and> has_node (graph ga) a \<longrightarrow>
      detect_lateral_movement ga a a =
        \<lparr>risk_score = 0, path = [a], path_length = Some 0,
         is_suspicious = False, total_weight = Some 0\<rparr>)"
proof (cases "is_initialized ga \<and> has_node (graph ga) a")
  case True
  then have "has_path (graph ga) a a" "shortest_path (graph ga) a a = Inr [a]"
    by (simp_all add: has_path_refl shortest_path_refl)
  with True show ?thesis
    by (simp add: detect_lateral_movement_def)
next
  case False
  then show ?thesis
    by (auto simp: detect_lateral_movement_def no_movement_def)
qed

theorem C8_self_score_zero_witness:
  "detect_lateral_movement
     (add_connection (initialize init_analyzer) ''A'' ''B'' ''login'' 3) ''A'' ''A'' =
   \<lparr>risk_score = 0, path = [''A''], path_length = Some 0,
    is_suspicious = False, total_weight = Some 0\<rparr>"
proof -
  let ?ga = "add_connection (initialize init_analyzer) ''A'' ''B'' ''login'' 3"
  have "is_initialized ?ga \<and> has_node (graph ?ga) ''A''"
    by code_simp
  then show ?thesis
    using C8_self_score_zero[of ?ga "''A''"] by blast
qed

section \<open>\<^verbatim>\<open>get_attack_paths\<close>\<close>

lemma pairs_set:
  "(u, v) \<in> set (pairs xs) \<Longrightarrow> u \<in> set xs \<and> v \<in> set xs"
  by (induction xs) auto

lemma distinct_pairs: "distinct xs \<Longrightarrow> distinct (pairs xs)"
proof (induction xs)
  case Nil
  then show ?case by simp
next
  case (Cons x xs)
  have "distinct (map (Pair x) xs)"
    using Cons.prems by (simp add: distinct_map inj_on_def)
  moreover have "set (map (Pair x) xs) \<inter> set (pairs xs) = {}"
    using Cons.prems by (auto dest: pairs_set)
  ultimately show ?case using Cons by simp
qed

lemma pairs_one_orientation:
  assumes "distinct xs" "u \<in> set xs" "v \<in> set xs" "u \<noteq> v"
  shows "((u, v) \<in> set (pairs xs)) \<noteq> ((v, u) \<in> set (pairs xs))"
  using assms
proof (induction xs)
  case Nil
  then show ?case by simp
next
  case (Cons x xs)
  show ?case
  proof (cases "u = x \<or> v = x")
    case True
    then show ?thesis using Cons.prems by (auto dest: pairs_set)
  next
    case False
    then show ?thesis using Cons by auto
  qed
qed

lemma pairs_irrefl: "distinct xs \<Longrightarrow> (u, v) \<in> set (pairs xs) \<Longrightarrow> u \<noteq> v"
  by (induction xs) (auto dest: pairs_set)

text \<open>The entries before sorting, in the order of the two loops.\<close>

definition candidates :: "graph_analyzer \<Rightarrow> attack_path list" where
  "candidates ga =
     map (\<lambda>(s, t). \<lparr>ap_source = s, ap_target = t, ap_result = detect_lateral_movement ga s t\<rparr>)
       (pairs (nodes (graph ga)))"

lemma get_attack_paths_sorted_candidates:
  "is_initialized ga \<Longrightarrow>
   get_attack_paths ga th =
     sort_key (\<lambda>x. - risk_score (ap_result x))
       (filter (\<lambda>x. th < risk_score (ap_result x)) (candidates ga))"
  by (simp add: get_attack_paths_def candidates_def)

lemma candidates_keys:
  "map (\<lambda>x. (ap_source x, ap_target x)) (candidates ga) = pairs (nodes (graph ga))"
  by (simp add: candidates_def split_def comp_def)

lemma candidates_risk_le_1: "x \<in> set (candidates ga) \<Longrightarrow> risk_score (ap_result x) \<le> 1"
  by (auto simp: candidates_def risk_score_le_1)

lemma distinct_map_filter_keys:
  "distinct (map f xs) \<Longrightarrow> distinct (map f (filter P xs))"
  by (induction xs) auto

lemma distinct_map_insort_key:
  "distinct (map f (insort_key k x xs)) = distinct (map f (x # xs))"
  by (induction xs) (auto simp: set_insort_key)

lemma distinct_map_sort_key:
  "distinct (map f xs) \<Longrightarrow> distinct (map f (sort_key k xs))"
  by (induction xs) (simp_all add: distinct_map_insort_key)

text \<open>
  C6 (as amended). For an initialized analyzer \<^verbatim>\<open>get_attack_paths\<close> returns the entries of
  the pairs \<open>(nodes[i], nodes[j])\<close>, \<open>i < j\<close>, whose score is above the threshold, one entry
  per pair and one pair per two different nodes, in descending order of the score; entries
  of equal score keep the order in which the two loops over the node list produced them;
  a threshold of \<open>1\<close> or more, such as \<open>1.1\<close>, gives the empty list.
\<close>

theorem C6_attack_paths_ranked:
  assumes "is_initialized ga" and "wf_graph (graph ga)"
  shows "set (get_attack_paths ga th) =
           {x \<in> set (candidates ga). th < risk_score (ap_result x)} \<and>
         map (\<lambda>x. (ap_source x, ap_target x)) (candidates ga) = pairs (nodes (graph ga)) \<and>
         (\<forall>u v. u \<in> set (nodes (graph ga)) \<and> v \<in> set (nodes (graph ga)) \<and> u \<noteq> v \<longrightarrow>
            ((u, v) \<in> set (pairs (nodes (graph ga)))) \<noteq>
            ((v, u) \<in> set (pairs (nodes (graph ga))))) \<and>
         distinct (map (\<lambda>x. (ap_source x, ap_target x)) (get_attack_paths ga th)) \<and>
         sorted (map (\<lambda>x. - risk_score (ap_result x)) (get_attack_paths ga th)) \<and>
         (\<forall>r. filter (\<lambda>x. risk_score (ap_result x) = r) (get_attack_paths ga th) =
              (if th < r then filter (\<lambda>x. risk_score (ap_result x) = r) (candidates ga)
               else [])) \<and>
         (1 \<le> th \<longrightarrow> get_attack_paths ga th = []) \<and>
         get_attack_paths ga (11 / 10) = []"
proof -
  let ?k = "\<lambda>x :: attack_path. - risk_score (ap_result x)"
  let ?P = "\<lambda>x :: attack_path. th < risk_score (ap_result x)"
  have g': "get_attack_paths ga t =
              sort_key ?k (filter (\<lambda>x. t < risk_score (ap_result x)) (candidates ga))" for t
    using assms(1) by (rule get_attack_paths_sorted_candidates)
  have g: "get_attack_paths ga th = sort_key ?k (filter ?P (candidates ga))"
    by (rule g')
  have dn: "distinct (nodes (graph ga))"
    using assms(2) by (simp add: wf_graph_def nodes_def)
  have 1: "set (get_attack_paths ga th) = {x \<in> set (candidates ga). ?P x}"
    by (simp add: g)
  have 3: "\<forall>u v. u \<in> set (nodes (graph ga)) \<and> v \<in> set (nodes (graph ga)) \<and> u \<noteq> v \<longrightarrow>
            ((u, v) \<in> set (pairs (nodes (graph ga)))) \<noteq>
            ((v, u) \<in> set (pairs (nodes (graph ga))))"
    using pairs_one_orientation[OF dn] by blast
  have "distinct (map (\<lambda>x. (ap_source x, ap_target x)) (candidates ga))"
    using dn by (simp only: candidates_keys distinct_pairs)
  then have 4: "distinct (map (\<lambda>x. (ap_source x, ap_target x)) (get_attack_paths ga th))"
    unfolding g by (intro distinct_map_sort_key distinct_map_filter_keys)
  have 5: "sorted (map ?k (get_attack_paths ga th))"
    by (simp add: g)
  have 6: "filter (\<lambda>x. risk_score (ap_result x) = r) (get_attack_paths ga th) =
            (if th < r then filter (\<lambda>x. risk_score (ap_result x) = r) (candidates ga) else [])"
    for r
  proof -
    have "filter (\<lambda>x. risk_score (ap_result x) = r) (get_attack_paths ga th) =
          filter (\<lambda>x. ?k x = - r) (sort_key ?k (filter ?P (candidates ga)))"
      by (simp add: g)
    also have "\<dots> = filter (\<lambda>x. ?k x = - r) (filter ?P (candidates ga))"
      by (rule sort_key_stable)
    also have "\<dots> = filter (\<lambda>x. risk_score (ap_result x) = r \<and> th < r) (candidates ga)"
      by (simp add: conj_commute cong: conj_cong)
    also have "\<dots> = (if th < r then filter (\<lambda>x. risk_score (ap_result x) = r) (candidates ga)
                      else [])"
      by simp
    finally show ?thesis .
  qed
  have 7: "get_attack_paths ga th' = []" if "1 \<le> th'" for th'
  proof -
    have "filter (\<lambda>x. th' < risk_score (ap_result x)) (candidates ga) = []"
      using that candidates_risk_le_1[of _ ga] by (fastforce simp: filter_empty_conv)
    then show ?thesis by (simp add: g')
  qed
  have 8: "get_attack_paths ga (11 / 10) = []"
    by (rule 7) simp
  from 1 candidates_keys[of ga] 3 4 5 6 7 8 show ?thesis by blast
qed

lemma wf_graph_initialize: "wf_graph (graph (initialize init_analyzer))"
  by (simp add: initialize_def init_analyzer_def wf_graph_empty)

lemma wf_abc_analyzer: "wf_graph (graph abc_analyzer)"
  unfolding abc_analyzer_def by (intro wf_graph_add_connection wf_graph_initialize)

theorem C6_attack_paths_ranked_witness:
  "map (\<lambda>x. (ap_source x, ap_target x)) (get_attack_paths abc_analyzer (1 / 4)) =
     [(''A'', ''C''), (''A'', ''B'')] \<and>
   sorted (map (\<lambda>x. - risk_score (ap_result x)) (get_attack_paths abc_analyzer (1 / 4))) \<and>
   distinct (map (\<lambda>x. (ap_source x, ap_target x)) (get_attack_paths abc_analyzer (1 / 4))) \<and>
   get_attack_paths abc_analyzer (11 / 10) = []"
proof -
  have i: "is_initialized abc_analyzer"
    unfolding abc_analyzer_def by (simp add: is_initialized_add_connection initialize_def)
  have k: "map (\<lambda>x. (ap_source x, ap_target x)) (get_attack_paths abc_analyzer (1 / 4)) =
             [(''A'', ''C''), (''A'', ''B'')]"
    unfolding abc_analyzer_def by code_simp
  show ?thesis
    using C6_attack_paths_ranked[OF i wf_abc_analyzer, of "1 / 4"] k by blast
qed

text \<open>
  The claim as the specification states it fails in the order of ties: after D-C and then
  B-A have been observed, both of weight 8, the two entries have the score \<open>0.8\<close> and
  come in the order of the node list, (D, C) before (B, A), which is not the order by
  (source, target).
\<close>

theorem C6_tie_order_counterexample:
  "map (\<lambda>x. (ap_source x, ap_target x, risk_score (ap_result x)))
     (get_attack_paths tie_analyzer (1 / 2)) =
     [(''D'', ''C'', 4 / 5), (''B'', ''A'', 4 / 5)] \<and>
   \<not> sorted_wrt spec_ranked (get_attack_paths tie_analyzer (1 / 2))"
  unfolding tie_analyzer_def by code_simp

section \<open>The cache of the endpoint\<close>




end
